theory Spec2Isabelle
  imports Complex_Main
begin

section \<open>JSON values and the Python operations applied to them\<close>

text \<open>
  The aggregator of \<^verbatim>\<open>pipeline/compute_metrics.py\<close> reads judgment records with
  \<^verbatim>\<open>json.loads\<close> and hands them to an evaluator object. A parsed line is a value of
  type \<open>json\<close>. An object holds its items as an association list, each key once, and is
  read with \<open>map_of\<close>. JSON numbers are left out: no field read by the evaluators is
  numeric, and without them Python's \<^verbatim>\<open>==\<close> is equality of the terms wherever
  the code compares values (a string with the elements of a list, and the hashable keys
  of a \<^verbatim>\<open>Counter\<close> with each other).
\<close>

datatype json =
    JNull
  | JBool bool
  | JStr string
  | JArr "json list"
  | JObj "(string \<times> json) list"

text \<open>The exceptions that can leave \<^verbatim>\<open>compute_metrics\<close>.\<close>

datatype error =
    RuntimeError        \<comment> \<open>\<^verbatim>\<open>RuntimeError("Some data is missing!")\<close>\<close>
  | ValueError          \<comment> \<open>\<^verbatim>\<open>ValueError(f"Unsupported mode {aggregation_mode}")\<close>\<close>
  | JSONDecodeError
  | TypeError
  | KeyError
  | IndexError
  | AttributeError
  | ZeroDivisionError

text \<open>Sequencing of computations that may raise.\<close>

definition and_then :: "error + 'a \<Rightarrow> ('a \<Rightarrow> error + 'b) \<Rightarrow> error + 'b" where
  "and_then r f = (case r of Inl e \<Rightarrow> Inl e | Inr x \<Rightarrow> f x)"

text \<open>A list comprehension whose element expression may raise: the first error wins.\<close>

fun comprehension :: "('a \<Rightarrow> error + 'b) \<Rightarrow> 'a list \<Rightarrow> error + 'b list" where
  "comprehension f [] = Inr []"
| "comprehension f (x # xs) =
     and_then (f x) (\<lambda>y. and_then (comprehension f xs) (\<lambda>ys. Inr (y # ys)))"

text \<open>Python truthiness: \<^verbatim>\<open>None\<close>, \<^verbatim>\<open>False\<close> and empty containers are falsy.\<close>

fun truthy :: "json \<Rightarrow> bool" where
  "truthy JNull = False"
| "truthy (JBool b) = b"
| "truthy (JStr s) = (s \<noteq> [])"
| "truthy (JArr xs) = (xs \<noteq> [])"
| "truthy (JObj kvs) = (kvs \<noteq> [])"

fun starts_with :: "string \<Rightarrow> string \<Rightarrow> bool" where
  "starts_with [] s = True"
| "starts_with (c # p) [] = False"
| "starts_with (c # p) (d # s) = (c = d \<and> starts_with p s)"

fun substring :: "string \<Rightarrow> string \<Rightarrow> bool" where
  "substring p [] = (p = [])"
| "substring p (d # s) = (starts_with p (d # s) \<or> substring p s)"

text \<open>
  \<^verbatim>\<open>key in elem\<close> for a string key: key membership for a dict, element membership for
  a list, substring test for a string, \<^verbatim>\<open>TypeError\<close> for \<^verbatim>\<open>None\<close> and booleans.
\<close>

fun contains :: "json \<Rightarrow> string \<Rightarrow> error + bool" where
  "contains (JObj kvs) k = Inr (map_of kvs k \<noteq> None)"
| "contains (JArr xs) k = Inr (List.member xs (JStr k))"
| "contains (JStr s) k = Inr (substring k s)"
| "contains JNull k = Inl TypeError"
| "contains (JBool b) k = Inl TypeError"

text \<open>
  \<^verbatim>\<open>elem[key]\<close> for a string key: a dict lookup (\<^verbatim>\<open>KeyError\<close> when absent),
  \<^verbatim>\<open>TypeError\<close> for every other value.
\<close>

fun subscript :: "json \<Rightarrow> string \<Rightarrow> error + json" where
  "subscript (JObj kvs) k = (case map_of kvs k of None \<Rightarrow> Inl KeyError | Some v \<Rightarrow> Inr v)"
| "subscript v k = Inl TypeError"

text \<open>
  \<^verbatim>\<open>n += v\<close> for an integer counter \<open>n\<close>: a boolean adds 0 or 1; \<^verbatim>\<open>None\<close>, strings,
  lists and dicts raise \<^verbatim>\<open>TypeError\<close>.
\<close>

fun as_number :: "json \<Rightarrow> error + int" where
  "as_number (JBool b) = Inr (of_bool b)"
| "as_number v = Inl TypeError"

text \<open>
  \<^verbatim>\<open>a / b\<close> on integers: true division, \<^verbatim>\<open>ZeroDivisionError\<close> for a zero
  divisor. The quotient is a Python float; the model computes it exactly, over the reals.
\<close>

definition true_div :: "int \<Rightarrow> int \<Rightarrow> error + real" where
  "true_div a b = (if b = 0 then Inl ZeroDivisionError else Inr (of_int a / of_int b))"

text \<open>\<^verbatim>\<open>any\<close> and \<^verbatim>\<open>all\<close> over a list of values test truthiness.\<close>

definition py_any :: "json list \<Rightarrow> bool" where
  "py_any vs = list_ex truthy vs"

definition py_all :: "json list \<Rightarrow> bool" where
  "py_all vs = list_all truthy vs"

section \<open>\<^verbatim>\<open>collections.Counter\<close>\<close>

text \<open>
  A \<^verbatim>\<open>Counter\<close> is a dict from keys to counts and keeps the keys in the order of
  their first insertion; building it hashes every element (\<^verbatim>\<open>TypeError\<close> for a tuple
  that holds a list or a dict). \<^verbatim>\<open>most_common(1)\<close> is \<^verbatim>\<open>max\<close> over the items by
  count, which returns the first item that reaches the maximum.
\<close>

fun hashable :: "json \<Rightarrow> bool" where
  "hashable (JArr xs) = False"
| "hashable (JObj kvs) = False"
| "hashable v = True"

fun count_element :: "('k \<times> nat) list \<Rightarrow> 'k \<Rightarrow> ('k \<times> nat) list" where
  "count_element [] k = [(k, 1)]"
| "count_element ((k', n) # c) k =
     (if k' = k then (k', n + 1) # c else (k', n) # count_element c k)"

fun Counter_from :: "((json \<times> json) \<times> nat) list \<Rightarrow> (json \<times> json) list
    \<Rightarrow> error + ((json \<times> json) \<times> nat) list" where
  "Counter_from c [] = Inr c"
| "Counter_from c ((a, r) # xs) =
     (if hashable a \<and> hashable r then Counter_from (count_element c (a, r)) xs
      else Inl TypeError)"

definition Counter :: "(json \<times> json) list \<Rightarrow> error + ((json \<times> json) \<times> nat) list" where
  "Counter xs = Counter_from [] xs"

fun max_by_count :: "('k \<times> nat) \<Rightarrow> ('k \<times> nat) list \<Rightarrow> ('k \<times> nat)" where
  "max_by_count best [] = best"
| "max_by_count best (x # xs) = max_by_count (if snd best < snd x then x else best) xs"

text \<open>\<^verbatim>\<open>c.most_common(1)[0]\<close>: \<^verbatim>\<open>IndexError\<close> on an empty counter.\<close>

fun most_common_1 :: "('k \<times> nat) list \<Rightarrow> error + ('k \<times> nat)" where
  "most_common_1 [] = Inl IndexError"
| "most_common_1 (x # xs) = Inr (max_by_count x xs)"

section \<open>MathEval\<close>

record counters =
  total :: int
  total_correct :: int

record math_state = counters +
  total_no_answer :: int

record math_metrics =
  num_entries :: int
  correct_answer :: real
  wrong_answer :: real
  no_answer :: real

definition MathEval_reset :: math_state where
  "MathEval_reset = \<lparr>total = 0, total_correct = 0, total_no_answer = 0\<rparr>"

definition MathEval_fill_up_missing :: json where
  "MathEval_fill_up_missing =
     JObj [(''predicted_answer'', JNull), (''is_correct'', JBool False)]"

text \<open>\<^verbatim>\<open>'is_correct' not in elem or 'predicted_answer' not in elem\<close>\<close>

definition MathEval_is_incomplete :: "json \<Rightarrow> error + bool" where
  "MathEval_is_incomplete elem =
     and_then (contains elem ''is_correct'') (\<lambda>b1.
       if \<not> b1 then Inr True
       else and_then (contains elem ''predicted_answer'') (\<lambda>b2. Inr (\<not> b2)))"

text \<open>
  The comprehension of the majority branch: the filter reads \<^verbatim>\<open>predicted_answer\<close>
  first, and only records that pass it have \<^verbatim>\<open>is_correct\<close> read.
\<close>

fun valid_answers_and_results :: "json list \<Rightarrow> error + (json \<times> json) list" where
  "valid_answers_and_results [] = Inr []"
| "valid_answers_and_results (elem # predictions) =
     and_then (subscript elem ''predicted_answer'') (\<lambda>a.
       if a \<noteq> JNull then
         and_then (subscript elem ''is_correct'') (\<lambda>r.
           and_then (valid_answers_and_results predictions) (\<lambda>rest. Inr ((a, r) # rest)))
       else valid_answers_and_results predictions)"

definition MathEval_update :: "math_state \<Rightarrow> json list \<Rightarrow> string \<Rightarrow> error + math_state" where
  "MathEval_update self0 predictions aggregation_mode =
     (let self = self0\<lparr>total := total self0 + 1\<rparr> in
      if aggregation_mode = ''best'' then
        and_then (comprehension (\<lambda>elem. subscript elem ''is_correct'') predictions) (\<lambda>cs.
          let self = self\<lparr>total_correct := total_correct self + of_bool (py_any cs)\<rparr> in
          and_then (comprehension (\<lambda>elem. subscript elem ''predicted_answer'') predictions) (\<lambda>as.
            if list_all (\<lambda>a. a = JNull) as
            then Inr (self\<lparr>total_no_answer := total_no_answer self + 1\<rparr>)
            else Inr self))
      else if aggregation_mode = ''majority'' then
        and_then (valid_answers_and_results predictions) (\<lambda>valid.
          if length valid = 0 then Inr (self\<lparr>total_no_answer := total_no_answer self + 1\<rparr>)
          else
            and_then (Counter valid) (\<lambda>c.
              and_then (most_common_1 c) (\<lambda>top.
                let majority_result = fst top in
                and_then (as_number (snd majority_result)) (\<lambda>n.
                  Inr (self\<lparr>total_correct := total_correct self + n\<rparr>)))))
      else if aggregation_mode = ''first'' then
        (case predictions of
           [] \<Rightarrow> Inl IndexError
         | p # _ \<Rightarrow>
             and_then (subscript p ''is_correct'') (\<lambda>c.
               and_then (as_number c) (\<lambda>n.
                 let self = self\<lparr>total_correct := total_correct self + n\<rparr> in
                 and_then (subscript p ''predicted_answer'') (\<lambda>a.
                   Inr (self\<lparr>total_no_answer := total_no_answer self + of_bool (a = JNull)\<rparr>)))))
      else Inl ValueError)"

text \<open>The entries of the returned dict are evaluated in the order written.\<close>

definition MathEval_get_metrics :: "math_state \<Rightarrow> error + math_metrics" where
  "MathEval_get_metrics self =
     and_then (true_div (total_correct self) (total self)) (\<lambda>correct.
       and_then (true_div (total self - total_correct self - total_no_answer self) (total self))
         (\<lambda>wrong.
           and_then (true_div (total_no_answer self) (total self)) (\<lambda>none.
             Inr \<lparr>num_entries = total self,
                  correct_answer = correct * 100,
                  wrong_answer = wrong * 100,
                  no_answer = none * 100\<rparr>)))"

section \<open>CodeEval\<close>

record code_state = counters +
  total_correct_plus :: int

record code_metrics =
  code_num_entries :: int
  passing_base_tests :: real
  passing_plus_tests :: real

definition CodeEval_reset :: code_state where
  "CodeEval_reset = \<lparr>total = 0, total_correct = 0, total_correct_plus = 0\<rparr>"

definition CodeEval_fill_up_missing :: json where
  "CodeEval_fill_up_missing =
     JObj [(''is_correct'', JBool False), (''is_correct-plus'', JBool False)]"

definition CodeEval_is_incomplete :: "json \<Rightarrow> error + bool" where
  "CodeEval_is_incomplete elem =
     and_then (contains elem ''is_correct'') (\<lambda>b1.
       if \<not> b1 then Inr True
       else and_then (contains elem ''is_correct-plus'') (\<lambda>b2. Inr (\<not> b2)))"

definition CodeEval_update :: "code_state \<Rightarrow> json list \<Rightarrow> string \<Rightarrow> error + code_state" where
  "CodeEval_update self0 predictions aggregation_mode =
     (let self = self0\<lparr>total := total self0 + 1\<rparr> in
      if aggregation_mode = ''best'' then
        and_then (comprehension (\<lambda>elem. subscript elem ''is_correct'') predictions) (\<lambda>cs.
          let self = self\<lparr>total_correct := total_correct self + of_bool (py_any cs)\<rparr> in
          and_then (comprehension (\<lambda>elem. subscript elem ''is_correct-plus'') predictions) (\<lambda>ps.
            Inr (self\<lparr>total_correct_plus := total_correct_plus self + of_bool (py_any ps)\<rparr>)))
      else if aggregation_mode = ''first'' then
        (case predictions of
           [] \<Rightarrow> Inl IndexError
         | p # _ \<Rightarrow>
             and_then (subscript p ''is_correct'') (\<lambda>c.
               and_then (as_number c) (\<lambda>n.
                 let self = self\<lparr>total_correct := total_correct self + n\<rparr> in
                 and_then (subscript p ''is_correct-plus'') (\<lambda>c'.
                   and_then (as_number c') (\<lambda>n'.
                     Inr (self\<lparr>total_correct_plus := total_correct_plus self + n'\<rparr>))))))
      else Inl ValueError)"

definition CodeEval_get_metrics :: "code_state \<Rightarrow> error + code_metrics" where
  "CodeEval_get_metrics self =
     and_then (true_div (total_correct self) (total self)) (\<lambda>base.
       and_then (true_div (total_correct_plus self) (total self)) (\<lambda>stricter.
         Inr \<lparr>code_num_entries = total self,
              passing_base_tests = base * 100,
              passing_plus_tests = stricter * 100\<rparr>))"

section \<open>IFEval\<close>

text \<open>
  One statistics dict: the \<^verbatim>\<open>prompt\<close> and \<^verbatim>\<open>instruction\<close> counters and the two
  \<^verbatim>\<open>defaultdict(int)\<close> tables of \<^verbatim>\<open>tier0\<close>.
\<close>

record stats =
  prompt_total :: int
  prompt_correct :: int
  instruction_total :: int
  instruction_correct :: int
  tier0_total :: "string \<rightharpoonup> int"
  tier0_correct :: "string \<rightharpoonup> int"

record ifeval_state =
  strict_stats :: stats
  loose_stats :: stats

record ifeval_metrics =
  num_prompts :: int
  num_instructions :: int
  prompt_strict_accuracy :: real
  instruction_strict_accuracy :: real
  prompt_loose_accuracy :: real
  instruction_loose_accuracy :: real

definition required_keys :: "string list" where
  "required_keys = [''follow_instruction_list'', ''instruction_id_list'']"

definition empty_stats :: stats where
  "empty_stats = \<lparr>prompt_total = 0, prompt_correct = 0,
                   instruction_total = 0, instruction_correct = 0,
                   tier0_total = Map.empty, tier0_correct = Map.empty\<rparr>"

definition IFEval_reset :: ifeval_state where
  "IFEval_reset = \<lparr>strict_stats = empty_stats, loose_stats = empty_stats\<rparr>"

definition IFEval_fill_up_missing :: json where
  "IFEval_fill_up_missing =
     JObj [(''loose_eval'', JObj (map (\<lambda>key. (key, JArr [])) required_keys)),
           (''strict_eval'', JObj (map (\<lambda>key. (key, JArr [])) required_keys))]"

text \<open>\<^verbatim>\<open>any([key not in elem[block] for key in self.required_keys])\<close>\<close>

definition lacks_required_key :: "json \<Rightarrow> string \<Rightarrow> error + bool" where
  "lacks_required_key elem block =
     and_then
       (comprehension
          (\<lambda>key. and_then (subscript elem block) (\<lambda>b.
                    and_then (contains b key) (\<lambda>c. Inr (\<not> c))))
          required_keys)
       (\<lambda>bs. Inr (list_ex (\<lambda>b. b) bs))"

definition IFEval_is_incomplete :: "json \<Rightarrow> error + bool" where
  "IFEval_is_incomplete elem =
     and_then (contains elem ''loose_eval'') (\<lambda>l.
       and_then (if \<not> l then Inr True
                 else and_then (contains elem ''strict_eval'') (\<lambda>s. Inr (\<not> s))) (\<lambda>incomplete.
         if incomplete then Inr True
         else and_then (lacks_required_key elem ''loose_eval'') (\<lambda>lacks_loose.
           if lacks_loose then Inr True
           else and_then (lacks_required_key elem ''strict_eval'') (\<lambda>lacks_strict.
             if lacks_strict then Inr True else Inr False))))"

text \<open>
  \<^verbatim>\<open>len(v)\<close>, \<^verbatim>\<open>v[i]\<close> for an integer index, and iteration over \<open>v\<close>: a string
  is a sequence of one-character strings; a dict has a length and iterates over its
  keys, but no integer is one of its keys.
\<close>

fun py_len :: "json \<Rightarrow> error + nat" where
  "py_len (JArr xs) = Inr (length xs)"
| "py_len (JStr s) = Inr (length s)"
| "py_len (JObj kvs) = Inr (length kvs)"
| "py_len v = Inl TypeError"

fun index_at :: "json \<Rightarrow> nat \<Rightarrow> error + json" where
  "index_at (JArr xs) i = (if i < length xs then Inr (xs ! i) else Inl IndexError)"
| "index_at (JStr s) i = (if i < length s then Inr (JStr [s ! i]) else Inl IndexError)"
| "index_at (JObj kvs) i = Inl KeyError"
| "index_at v i = Inl TypeError"

fun py_iter :: "json \<Rightarrow> error + json list" where
  "py_iter (JArr xs) = Inr xs"
| "py_iter (JStr s) = Inr (map (\<lambda>c. JStr [c]) s)"
| "py_iter (JObj kvs) = Inr (map (\<lambda>kv. JStr (fst kv)) kvs)"
| "py_iter v = Inl TypeError"

text \<open>
  One pass of the comprehension
  \<^verbatim>\<open>[follow_instruction_list[i] or elem['follow_instruction_list'][i] for i in range(len(follow_instruction_list))]\<close>
  from position \<open>i\<close> on. Python's \<^verbatim>\<open>or\<close> yields its left operand when that is truthy
  and evaluates the right operand only otherwise.
\<close>

fun or_elementwise :: "json \<Rightarrow> nat \<Rightarrow> json list \<Rightarrow> error + json list" where
  "or_elementwise elem i [] = Inr []"
| "or_elementwise elem i (f # fs) =
     and_then (if truthy f then Inr f
               else and_then (subscript elem ''follow_instruction_list'') (\<lambda>l. index_at l i)) (\<lambda>v.
       and_then (or_elementwise elem (Suc i) fs) (\<lambda>vs. Inr (v # vs)))"

text \<open>The loop \<^verbatim>\<open>for elem in elems\<close> around that comprehension.\<close>

fun merge_follow :: "json list \<Rightarrow> json list \<Rightarrow> error + json list" where
  "merge_follow follow_instruction_list [] = Inr follow_instruction_list"
| "merge_follow follow_instruction_list (elem # elems) =
     and_then (or_elementwise elem 0 follow_instruction_list) (\<lambda>merged.
       merge_follow merged elems)"

text \<open>
  The first pass reads \<^verbatim>\<open>elems[0]['follow_instruction_list']\<close> itself by
  \<^verbatim>\<open>len\<close> and integer index; \<open>first_follow\<close> gives the items it sees.
\<close>

fun first_follow :: "json \<Rightarrow> error + json list" where
  "first_follow (JArr xs) = Inr xs"
| "first_follow (JStr s) = Inr (map (\<lambda>c. JStr [c]) s)"
| "first_follow (JObj kvs) = (if kvs = [] then Inr [] else Inl KeyError)"
| "first_follow v = Inl TypeError"

text \<open>\<^verbatim>\<open>sum(follow_instruction_list)\<close>\<close>

fun py_sum :: "json list \<Rightarrow> error + int" where
  "py_sum [] = Inr 0"
| "py_sum (v # vs) = and_then (as_number v) (\<lambda>n. and_then (py_sum vs) (\<lambda>m. Inr (n + m)))"

text \<open>\<^verbatim>\<open>d[k] += 1\<close> on a \<^verbatim>\<open>defaultdict(int)\<close>\<close>

definition increment :: "(string \<rightharpoonup> int) \<Rightarrow> string \<Rightarrow> (string \<rightharpoonup> int)" where
  "increment d k = d(k \<mapsto> (case d k of None \<Rightarrow> 0 | Some n \<Rightarrow> n) + 1)"

text \<open>\<^verbatim>\<open>instruction_id.split(":")[0]\<close>\<close>

fun category :: "json \<Rightarrow> error + string" where
  "category (JStr s) = Inr (takeWhile (\<lambda>c. c \<noteq> CHR '':'') s)"
| "category v = Inl AttributeError"

text \<open>The loop over \<^verbatim>\<open>zip(instruction_id_list, follow_instruction_list)\<close>.\<close>

fun update_tier0 :: "stats \<Rightarrow> (json \<times> json) list \<Rightarrow> error + stats" where
  "update_tier0 stats_dict [] = Inr stats_dict"
| "update_tier0 stats_dict ((instruction_id, followed_or_not) # rest) =
     and_then (category instruction_id) (\<lambda>c.
       let stats_dict = stats_dict\<lparr>tier0_total := increment (tier0_total stats_dict) c\<rparr>;
           stats_dict =
             (if truthy followed_or_not
              then stats_dict\<lparr>tier0_correct := increment (tier0_correct stats_dict) c\<rparr>
              else stats_dict)
       in update_tier0 stats_dict rest)"

definition update_single_stat :: "stats \<Rightarrow> json list \<Rightarrow> error + stats" where
  "update_single_stat stats_dict elems =
     (case elems of
        [] \<Rightarrow> Inl IndexError
      | e0 # _ \<Rightarrow>
          and_then (subscript e0 ''instruction_id_list'') (\<lambda>instruction_id_list.
          and_then (subscript e0 ''follow_instruction_list'') (\<lambda>follow0.
          and_then (first_follow follow0) (\<lambda>follow_instruction_list.
          and_then (merge_follow follow_instruction_list elems) (\<lambda>follow_instruction_list.
            let stats_dict = stats_dict\<lparr>prompt_total := prompt_total stats_dict + 1\<rparr>;
                stats_dict =
                  (if py_all follow_instruction_list
                   then stats_dict\<lparr>prompt_correct := prompt_correct stats_dict + 1\<rparr>
                   else stats_dict)
            in
            and_then (py_len instruction_id_list) (\<lambda>n.
              let stats_dict =
                    stats_dict\<lparr>instruction_total := instruction_total stats_dict + int n\<rparr> in
              and_then (py_sum follow_instruction_list) (\<lambda>s.
                let stats_dict =
                      stats_dict\<lparr>instruction_correct := instruction_correct stats_dict + s\<rparr> in
                and_then (py_iter instruction_id_list) (\<lambda>ids.
                  update_tier0 stats_dict (zip ids follow_instruction_list)))))))))"

definition IFEval_update :: "ifeval_state \<Rightarrow> json list \<Rightarrow> string \<Rightarrow> error + ifeval_state" where
  "IFEval_update self predictions aggregation_mode =
     (if aggregation_mode = ''best'' then
        and_then (comprehension (\<lambda>pred. subscript pred ''strict_eval'') predictions) (\<lambda>stricts.
          and_then (update_single_stat (strict_stats self) stricts) (\<lambda>strict'.
            and_then (comprehension (\<lambda>pred. subscript pred ''loose_eval'') predictions) (\<lambda>looses.
              and_then (update_single_stat (loose_stats self) looses) (\<lambda>loose'.
                Inr \<lparr>strict_stats = strict', loose_stats = loose'\<rparr>))))
      else if aggregation_mode = ''first'' then
        (case predictions of
           [] \<Rightarrow> Inl IndexError
         | p # _ \<Rightarrow>
             and_then (subscript p ''strict_eval'') (\<lambda>s.
               and_then (update_single_stat (strict_stats self) [s]) (\<lambda>strict'.
                 and_then (subscript p ''loose_eval'') (\<lambda>l.
                   and_then (update_single_stat (loose_stats self) [l]) (\<lambda>loose'.
                     Inr \<lparr>strict_stats = strict', loose_stats = loose'\<rparr>)))))
      else Inl ValueError)"

text \<open>
  The four divisions are by \<^verbatim>\<open>prompt_total\<close> and \<^verbatim>\<open>inst_total\<close> of the strict
  statistics, in the order written: prompt, instruction, prompt, instruction.
\<close>

definition IFEval_get_metrics :: "ifeval_state \<Rightarrow> error + ifeval_metrics" where
  "IFEval_get_metrics self =
     (let prompt_total = prompt_total (strict_stats self);
          inst_total = instruction_total (strict_stats self) in
      and_then (true_div (prompt_correct (strict_stats self)) prompt_total) (\<lambda>ps.
        and_then (true_div (instruction_correct (strict_stats self)) inst_total) (\<lambda>is.
          and_then (true_div (prompt_correct (loose_stats self)) prompt_total) (\<lambda>pl.
            and_then (true_div (instruction_correct (loose_stats self)) inst_total) (\<lambda>il.
              Inr \<lparr>num_prompts = prompt_total,
                   num_instructions = inst_total,
                   prompt_strict_accuracy = ps * 100,
                   instruction_strict_accuracy = is * 100,
                   prompt_loose_accuracy = pl * 100,
                   instruction_loose_accuracy = il * 100\<rparr>)))))"

section \<open>The driver \<^verbatim>\<open>compute_metrics\<close>\<close>

text \<open>
  The evaluator object passed to \<^verbatim>\<open>compute_metrics\<close>: its methods, over a state
  \<open>'s\<close> of counters that \<^verbatim>\<open>update\<close> returns changed.
\<close>

record ('s, 'm) evaluator =
  reset :: 's
  fill_up_missing :: json
  is_incomplete :: "json \<Rightarrow> error + bool"
  update :: "'s \<Rightarrow> json list \<Rightarrow> string \<Rightarrow> error + 's"
  get_metrics :: "'s \<Rightarrow> error + 'm"

definition MathEval :: "(math_state, math_metrics) evaluator" where
  "MathEval = \<lparr>reset = MathEval_reset, fill_up_missing = MathEval_fill_up_missing,
                is_incomplete = MathEval_is_incomplete, update = MathEval_update,
                get_metrics = MathEval_get_metrics\<rparr>"

definition CodeEval :: "(code_state, code_metrics) evaluator" where
  "CodeEval = \<lparr>reset = CodeEval_reset, fill_up_missing = CodeEval_fill_up_missing,
                is_incomplete = CodeEval_is_incomplete, update = CodeEval_update,
                get_metrics = CodeEval_get_metrics\<rparr>"

definition IFEval :: "(ifeval_state, ifeval_metrics) evaluator" where
  "IFEval = \<lparr>reset = IFEval_reset, fill_up_missing = IFEval_fill_up_missing,
              is_incomplete = IFEval_is_incomplete, update = IFEval_update,
              get_metrics = IFEval_get_metrics\<rparr>"

text \<open>
  A line of a prediction file is given by what \<^verbatim>\<open>json.loads\<close> makes of it: the
  parsed value, or \<open>Invalid_json\<close> when it raises. A line read from a file is never the
  empty string, so \<^verbatim>\<open>not line\<close> holds exactly for the \<^verbatim>\<open>None\<close> with which
  \<^verbatim>\<open>zip_longest\<close> fills up an exhausted file. A stream is the list of the lines of
  one file.
\<close>

datatype line = Invalid_json | Json json

type_synonym stream = "line list"

fun next_line :: "'a list \<Rightarrow> 'a option" where
  "next_line [] = None"
| "next_line (x # xs) = Some x"

definition longest :: "'a list list \<Rightarrow> nat" where
  "longest xss = fold max (map length xss) 0"

fun zip_longest_upto :: "nat \<Rightarrow> 'a list list \<Rightarrow> 'a option list list" where
  "zip_longest_upto 0 xss = []"
| "zip_longest_upto (Suc n) xss = map next_line xss # zip_longest_upto n (map tl xss)"

text \<open>
  \<^verbatim>\<open>itertools.zip_longest(*file_handles)\<close>: one tuple for each index below the length
  of the longest file, with \<open>None\<close> for the files that have ended.
\<close>

definition zip_longest :: "'a list list \<Rightarrow> 'a option list list" where
  "zip_longest xss = zip_longest_upto (longest xss) xss"

text \<open>The inner loop \<^verbatim>\<open>for line in lines\<close>, which builds \<^verbatim>\<open>data\<close>.\<close>

fun collect :: "('s, 'm) evaluator \<Rightarrow> bool \<Rightarrow> line option list \<Rightarrow> error + json list" where
  "collect evaluator allow_incomplete [] = Inr []"
| "collect evaluator allow_incomplete (None # lines) =
     (if \<not> allow_incomplete then Inl RuntimeError
      else and_then (collect evaluator allow_incomplete lines) (\<lambda>data.
             Inr (fill_up_missing evaluator # data)))"
| "collect evaluator allow_incomplete (Some Invalid_json # lines) = Inl JSONDecodeError"
| "collect evaluator allow_incomplete (Some (Json line_dict) # lines) =
     (if \<not> truthy line_dict then
        (if \<not> allow_incomplete then Inl RuntimeError
         else and_then (collect evaluator allow_incomplete lines) (\<lambda>data.
                Inr (fill_up_missing evaluator # data)))
      else
        and_then (is_incomplete evaluator line_dict) (\<lambda>incomplete.
          if incomplete then
            (if \<not> allow_incomplete then Inl RuntimeError
             else and_then (collect evaluator allow_incomplete lines) (\<lambda>data.
                    Inr (fill_up_missing evaluator # data)))
          else and_then (collect evaluator allow_incomplete lines) (\<lambda>data.
                 Inr (line_dict # data))))"

text \<open>
  The outer loop \<^verbatim>\<open>for idx, lines in enumerate(zip_longest(*file_handles))\<close>, from
  index \<open>idx\<close> on; \<^verbatim>\<open>break\<close> leaves it with the state reached.
\<close>

fun loop :: "('s, 'm) evaluator \<Rightarrow> bool \<Rightarrow> int \<Rightarrow> string \<Rightarrow> nat
    \<Rightarrow> line option list list \<Rightarrow> 's \<Rightarrow> error + 's" where
  "loop evaluator allow_incomplete max_samples aggregation_mode idx [] st = Inr st"
| "loop evaluator allow_incomplete max_samples aggregation_mode idx (lines # rest) st =
     (if int idx = max_samples then Inr st
      else
        and_then (collect evaluator allow_incomplete lines) (\<lambda>data.
          and_then (update evaluator st data aggregation_mode) (\<lambda>st'.
            loop evaluator allow_incomplete max_samples aggregation_mode (Suc idx) rest st')))"

text \<open>
  A file handle is open or closed. \<^verbatim>\<open>compute_metrics\<close> opens one handle for each file; the
  loop \<^verbatim>\<open>for file_handle in file_handles: file_handle.close()\<close> comes after the
  main loop and is reached when that loop ends or is left by \<^verbatim>\<open>break\<close>, not when
  an exception leaves it. The result is the value returned or the exception raised,
  together with the handles as the call leaves them.
\<close>

datatype handle = Opened | Closed

definition compute_metrics :: "stream list \<Rightarrow> ('s, 'm) evaluator \<Rightarrow> bool \<Rightarrow> int \<Rightarrow> string
    \<Rightarrow> (error + 'm) \<times> handle list" where
  "compute_metrics prediction_jsonl_files evaluator allow_incomplete max_samples aggregation_mode =
     (let file_handles = map (\<lambda>file. Opened) prediction_jsonl_files in
      case loop evaluator allow_incomplete max_samples aggregation_mode 0
             (zip_longest prediction_jsonl_files) (reset evaluator) of
        Inl e \<Rightarrow> (Inl e, file_handles)
      | Inr st \<Rightarrow> (get_metrics evaluator st, map (\<lambda>file_handle. Closed) file_handles))"

section \<open>Sequences of calls and counted calls\<close>


text \<open>
  An evaluator that behaves as the given one and counts the calls of \<^verbatim>\<open>update\<close>
  that return.
\<close>

definition counting_calls :: "('s, 'm) evaluator \<Rightarrow> ('s \<times> nat, 'm) evaluator" where
  "counting_calls evaluator =
     \<lparr>reset = (reset evaluator, 0),
      fill_up_missing = fill_up_missing evaluator,
      is_incomplete = is_incomplete evaluator,
      update = (\<lambda>st data aggregation_mode.
        and_then (update evaluator (fst st) data aggregation_mode) (\<lambda>st'.
          Inr (st', Suc (snd st)))),
      get_metrics = (\<lambda>st. get_metrics evaluator (fst st))\<rparr>"

section \<open>Records of the three schemas and the lines of a file\<close>

text \<open>
  Judgment records as the families' schemas give them: a Math record holds
  \<^verbatim>\<open>predicted_answer\<close> (a string or null) and \<^verbatim>\<open>is_correct\<close>; a Code record
  the two test verdicts; an instruction-following record the blocks \<^verbatim>\<open>strict_eval\<close>
  and \<^verbatim>\<open>loose_eval\<close>, each with the parallel lists of instruction ids and verdicts.
\<close>

definition math_record :: "json \<Rightarrow> bool \<Rightarrow> json" where
  "math_record answer correct = JObj [(''predicted_answer'', answer), (''is_correct'', JBool correct)]"

definition code_record :: "bool \<Rightarrow> bool \<Rightarrow> json" where
  "code_record base stricter = JObj [(''is_correct'', JBool base), (''is_correct-plus'', JBool stricter)]"

definition eval_block :: "string list \<Rightarrow> bool list \<Rightarrow> json" where
  "eval_block ids followed =
     JObj [(''instruction_id_list'', JArr (map JStr ids)),
           (''follow_instruction_list'', JArr (map JBool followed))]"

definition ifeval_record :: "json \<Rightarrow> json \<Rightarrow> json" where
  "ifeval_record strict loose = JObj [(''strict_eval'', strict), (''loose_eval'', loose)]"

text \<open>
  The three cases in which the driver takes a line for missing data: \<^verbatim>\<open>zip_longest\<close>
  filled it in for an exhausted file, it parses to a falsy value, or it parses to a truthy
  value that the evaluator's \<^verbatim>\<open>is_incomplete\<close> rejects.
\<close>

definition missing :: "('s, 'm) evaluator \<Rightarrow> line option \<Rightarrow> bool" where
  "missing evaluator l =
     (case l of
        None \<Rightarrow> True
      | Some Invalid_json \<Rightarrow> False
      | Some (Json v) \<Rightarrow> (if truthy v then is_incomplete evaluator v = Inr True else True))"

text \<open>
  A line is well formed when \<^verbatim>\<open>json.loads\<close> returns on it and, where the driver
  calls it, \<^verbatim>\<open>is_incomplete\<close> returns too.
\<close>

definition well_formed_line :: "('s, 'm) evaluator \<Rightarrow> line \<Rightarrow> bool" where
  "well_formed_line evaluator l =
     (case l of
        Invalid_json \<Rightarrow> False
      | Json v \<Rightarrow>
          (if truthy v then (case is_incomplete evaluator v of Inl e \<Rightarrow> False | Inr b \<Rightarrow> True)
           else True))"

text \<open>
  For the follow lists \<open>fls\<close> of the records of a group, in the order of the group:
  some record before the \<open>j\<close>-th has a true verdict at position \<open>p\<close>; and every record
  reaches every position of the first list at which no record before it has a true
  verdict.
\<close>

definition followed_before :: "bool list list \<Rightarrow> nat \<Rightarrow> nat \<Rightarrow> bool" where
  "followed_before fls j p = list_ex (\<lambda>bs. p < length bs \<and> bs ! p) (take j fls)"

definition merge_defined :: "bool list list \<Rightarrow> bool" where
  "merge_defined fls =
     list_all (\<lambda>j.
         list_all (\<lambda>p. p < length (fls ! j) \<or> followed_before fls j p) [0..<length (hd fls)])
       [0..<length fls]"

section \<open>Basic facts\<close>

lemma and_then_simps [simp]:
  "and_then (Inl e) f = Inl e"
  "and_then (Inr x) f = f x"
  by (simp_all add: and_then_def)

lemma and_then_Inr_iff: "and_then r f = Inr y \<longleftrightarrow> (\<exists>x. r = Inr x \<and> f x = Inr y)"
  by (cases r) simp_all

lemma loop_nil_or_cut:
  "groups = [] \<or> max_samples = 0 \<Longrightarrow> loop ev a max_samples mode 0 groups st = Inr st"
  by (cases groups) auto

lemma zip_longest_nil: "zip_longest [] = []"
  by (simp add: zip_longest_def longest_def)



lemma length_zip_longest_upto [simp]: "length (zip_longest_upto n xss) = n"
  by (induction n arbitrary: xss) auto

lemma length_zip_longest [simp]: "length (zip_longest xss) = longest xss"
  by (simp add: zip_longest_def)

lemma collect_cong:
  assumes "fill_up_missing ev' = fill_up_missing ev" and "is_incomplete ev' = is_incomplete ev"
  shows "collect ev' a lines = collect ev a lines"
proof (induction lines)
  case Nil
  show ?case by simp
next
  case (Cons l lines)
  show ?case
  proof (cases l)
    case None
    with Cons assms show ?thesis by (cases a) simp_all
  next
    case (Some x)
    show ?thesis
    proof (cases x)
      case Invalid_json
      with Some show ?thesis by simp
    next
      case (Json v)
      with Some Cons assms show ?thesis by (cases a) (simp_all cong: if_cong)
    qed
  qed
qed

lemma collect_counting_calls [simp]: "collect (counting_calls ev) a lines = collect ev a lines"
  by (rule collect_cong) (simp_all add: counting_calls_def)





lemma reset_counting_calls [simp]: "reset (counting_calls ev) = (reset ev, 0)"
  by (simp add: counting_calls_def)






lemma comprehension_all_Inr:
  "\<forall>x\<in>set xs. \<exists>y. f x = Inr y \<Longrightarrow> comprehension f xs = Inr (map (\<lambda>x. projr (f x)) xs)"
  by (induction xs) auto

section \<open>Metrics of the Math family\<close>



section \<open>Best mode of the Math family\<close>

text \<open>
  Claim C9. Under \<^verbatim>\<open>best\<close> the tests for a correct group and for a group with no
  answer are independent: when every record of the group has \<^verbatim>\<open>predicted_answer\<close>
  null and some record has \<^verbatim>\<open>is_correct\<close> true, one \<^verbatim>\<open>update\<close> adds one to
  \<^verbatim>\<open>total\<close>, to \<^verbatim>\<open>total_correct\<close> and to \<^verbatim>\<open>total_no_answer\<close>. After one such
  update on a fresh evaluator \<^verbatim>\<open>wrong_answer\<close> is \<open>(1 - 1 - 1) / 1 * 100 = -100\<close>.
\<close>

theorem best_correct_and_no_answer:
  assumes "\<forall>e\<in>set predictions. subscript e ''predicted_answer'' = Inr JNull"
    and "\<forall>e\<in>set predictions. \<exists>c. subscript e ''is_correct'' = Inr c"
    and "\<exists>e\<in>set predictions. subscript e ''is_correct'' = Inr (JBool True)"
  shows "MathEval_update st predictions ''best'' =
           Inr (st\<lparr>total := total st + 1, total_correct := total_correct st + 1,
                   total_no_answer := total_no_answer st + 1\<rparr>) \<and>
         (\<exists>m. MathEval_get_metrics
                 (MathEval_reset\<lparr>total := total MathEval_reset + 1,
                    total_correct := total_correct MathEval_reset + 1,
                    total_no_answer := total_no_answer MathEval_reset + 1\<rparr>) = Inr m \<and>
               wrong_answer m = - 100)"
proof -
  have c: "comprehension (\<lambda>elem. subscript elem ''is_correct'') predictions =
      Inr (map (\<lambda>e. projr (subscript e ''is_correct'')) predictions)"
    using assms(2) by (rule comprehension_all_Inr)
  have a: "comprehension (\<lambda>elem. subscript elem ''predicted_answer'') predictions =
      Inr (map (\<lambda>e. projr (subscript e ''predicted_answer'')) predictions)"
    using assms(1) by (intro comprehension_all_Inr) auto
  from assms(3) have any: "py_any (map (\<lambda>e. projr (subscript e ''is_correct'')) predictions)"
    by (auto simp: py_any_def list_ex_iff intro!: bexI)
  from assms(1) have all:
    "list_all (\<lambda>a. a = JNull) (map (\<lambda>e. projr (subscript e ''predicted_answer'')) predictions)"
    by (auto simp: list_all_iff)
  show ?thesis
    using any all by (simp add: MathEval_update_def c a MathEval_get_metrics_def true_div_def MathEval_reset_def)
qed

theorem best_correct_and_no_answer_witness:
  "subscript (math_record JNull True) ''predicted_answer'' = Inr JNull \<and>
   subscript (math_record JNull True) ''is_correct'' = Inr (JBool True) \<and>
   subscript (math_record JNull False) ''predicted_answer'' = Inr JNull \<and>
   subscript (math_record JNull False) ''is_correct'' = Inr (JBool False) \<and>
   MathEval_update MathEval_reset [math_record JNull False, math_record JNull True] ''best'' =
     Inr \<lparr>total = 1, total_correct = 1, total_no_answer = 1\<rparr> \<and>
   (\<exists>m. MathEval_get_metrics \<lparr>total = 1, total_correct = 1, total_no_answer = 1\<rparr> = Inr m \<and>
         wrong_answer m = - 100)"
  using best_correct_and_no_answer
    [of "[math_record JNull False, math_record JNull True]" MathEval_reset]
  by (simp add: MathEval_reset_def math_record_def)

section \<open>The \<^verbatim>\<open>max_samples\<close> cutoff\<close>






section \<open>Missing data\<close>



section \<open>File handles\<close>

text \<open>
  The handles are closed exactly when the main loop ends or is left by \<^verbatim>\<open>break\<close>;
  an exception raised in the loop leaves them open.
\<close>

lemma handles_after_compute_metrics:
  "snd (compute_metrics files ev a k mode) =
     (case loop ev a k mode 0 (zip_longest files) (reset ev) of
        Inl e \<Rightarrow> map (\<lambda>f. Opened) files
      | Inr st \<Rightarrow> map (\<lambda>f. Closed) files)"
  by (simp add: compute_metrics_def split: sum.splits)

text \<open>
  Claim C2 says that the handles are closed on every exit path. \<^verbatim>\<open>compute_metrics\<close>
  closes them in a loop after the main loop, without \<^verbatim>\<open>try\<close>/\<^verbatim>\<open>finally\<close>.
  With \<^verbatim>\<open>allow_incomplete\<close> false and a second file that has no line, the
  \<^verbatim>\<open>RuntimeError\<close> leaves the function before that loop, and both handles are
  still open.
\<close>

theorem handles_left_open_on_missing_data:
  "compute_metrics [[Json (math_record (JStr ''4'') True)], []] MathEval False (- 1) ''first'' =
     (Inl RuntimeError, [Opened, Opened])"
  by (simp add: compute_metrics_def zip_longest_def longest_def MathEval_def
      MathEval_is_incomplete_def math_record_def)

section \<open>Placeholders for missing records\<close>

text \<open>
  With \<^verbatim>\<open>allow_incomplete\<close> the inner loop returns on well-formed lines, with the
  evaluator's placeholder in the place of every missing line.
\<close>

lemma collect_allow_incomplete:
  assumes "\<forall>l\<in>set lines. \<forall>x. l = Some x \<longrightarrow> well_formed_line ev x"
  shows "\<exists>data. collect ev True lines = Inr data \<and>
           list_all2 (\<lambda>l d. if missing ev l then d = fill_up_missing ev else l = Some (Json d))
             lines data"
  using assms
proof (induction lines)
  case Nil
  show ?case by simp
next
  case (Cons l lines)
  then obtain data where d: "collect ev True lines = Inr data"
    "list_all2 (\<lambda>l d. if missing ev l then d = fill_up_missing ev else l = Some (Json d)) lines data"
    by auto
  show ?case
  proof (cases l)
    case None
    with d show ?thesis by (simp add: missing_def)
  next
    case (Some x)
    with Cons.prems have "well_formed_line ev x" by simp
    then obtain v where x: "x = Json v" and wf: "truthy v \<longrightarrow> (\<exists>b. is_incomplete ev v = Inr b)"
      by (cases x) (auto simp: well_formed_line_def split: sum.splits if_splits)
    show ?thesis
    proof (cases "truthy v")
      case False
      with Some x d show ?thesis by (simp add: missing_def)
    next
      case True
      with wf obtain b where "is_incomplete ev v = Inr b" by blast
      with True Some x d show ?thesis by (cases b) (simp_all add: missing_def)
    qed
  qed
qed

text \<open>
  The placeholders of MathEval and CodeEval carry \<^verbatim>\<open>is_correct = False\<close>: a group
  with a placeholder adds to the correct counters what the group without it adds, and
  nothing when \<^verbatim>\<open>first\<close> reads the placeholder.
\<close>

lemma comprehension_append:
  "comprehension f (xs @ ys) =
     and_then (comprehension f xs) (\<lambda>as. and_then (comprehension f ys) (\<lambda>bs. Inr (as @ bs)))"
proof (induction xs)
  case Nil
  show ?case by (cases "comprehension f ys") simp_all
next
  case (Cons x xs)
  show ?case
    by (cases "f x"; cases "comprehension f xs"; cases "comprehension f ys") (simp_all add: Cons)
qed

lemma comprehension_insert:
  assumes "f x = Inr y" and "comprehension f (xs @ x # ys) = Inr cs"
  shows "\<exists>as bs. comprehension f xs = Inr as \<and> comprehension f ys = Inr bs \<and>
           comprehension f (xs @ ys) = Inr (as @ bs) \<and> cs = as @ y # bs"
  using assms
  by (cases "comprehension f xs"; cases "comprehension f ys")
    (auto simp: comprehension_append)

lemma valid_answers_and_results_append:
  "valid_answers_and_results (xs @ ys) =
     and_then (valid_answers_and_results xs) (\<lambda>as.
       and_then (valid_answers_and_results ys) (\<lambda>bs. Inr (as @ bs)))"
proof (induction xs)
  case Nil
  show ?case by (cases "valid_answers_and_results ys") simp_all
next
  case (Cons x xs)
  show ?case
    by (cases "subscript x ''predicted_answer''"; cases "subscript x ''is_correct''";
        cases "valid_answers_and_results xs"; cases "valid_answers_and_results ys")
      (simp_all add: Cons)
qed

lemma valid_answers_and_results_placeholder:
  "valid_answers_and_results (xs @ MathEval_fill_up_missing # ys) =
   valid_answers_and_results (xs @ ys)"
  by (simp add: valid_answers_and_results_append MathEval_fill_up_missing_def)

lemma math_placeholder_adds_nothing:
  assumes "MathEval_update st (xs @ MathEval_fill_up_missing # ys) mode = Inr st'"
  shows "if xs = [] \<and> mode = ''first'' then total_correct st' = total_correct st
         else \<exists>st''. MathEval_update st (xs @ ys) mode = Inr st'' \<and>
                total_correct st'' = total_correct st'"
proof -
  consider (best) "mode = ''best''" | (majority) "mode = ''majority''" | (first) "mode = ''first''"
    using assms by (auto simp: MathEval_update_def Let_def split: if_splits)
  then show ?thesis
  proof cases
    case best
    have ph: "subscript MathEval_fill_up_missing ''is_correct'' = Inr (JBool False)"
      "subscript MathEval_fill_up_missing ''predicted_answer'' = Inr JNull"
      by (simp_all add: MathEval_fill_up_missing_def)
    from assms best obtain cs as where
      c: "comprehension (\<lambda>elem. subscript elem ''is_correct'')
            (xs @ MathEval_fill_up_missing # ys) = Inr cs"
      and a: "comprehension (\<lambda>elem. subscript elem ''predicted_answer'')
            (xs @ MathEval_fill_up_missing # ys) = Inr as"
      and st': "total_correct st' = total_correct st + of_bool (py_any cs)"
      by (auto simp: MathEval_update_def Let_def and_then_Inr_iff split: if_splits)
    from comprehension_insert [OF ph(1) c] obtain c1 c2 where
      c': "comprehension (\<lambda>elem. subscript elem ''is_correct'') (xs @ ys) = Inr (c1 @ c2)"
      and cs: "cs = c1 @ JBool False # c2" by blast
    from comprehension_insert [OF ph(2) a] obtain a1 a2 where
      a': "comprehension (\<lambda>elem. subscript elem ''predicted_answer'') (xs @ ys) = Inr (a1 @ a2)"
      by blast
    have "py_any cs = py_any (c1 @ c2)" by (simp add: cs py_any_def)
    with st' c' a' best show ?thesis
      by (auto simp: MathEval_update_def Let_def)
  next
    case majority
    with assms show ?thesis
      by (auto simp: MathEval_update_def Let_def valid_answers_and_results_placeholder)
  next
    case first
    show ?thesis
    proof (cases xs)
      case Nil
      with assms first show ?thesis
        by (auto simp: MathEval_update_def Let_def MathEval_fill_up_missing_def and_then_Inr_iff)
    next
      case (Cons x xs')
      with assms first show ?thesis
        by (auto simp: MathEval_update_def Let_def)
    qed
  qed
qed

lemma code_placeholder_adds_nothing:
  assumes "CodeEval_update st (xs @ CodeEval_fill_up_missing # ys) mode = Inr st'"
  shows "if xs = [] \<and> mode = ''first''
         then total_correct st' = total_correct st \<and>
              total_correct_plus st' = total_correct_plus st
         else \<exists>st''. CodeEval_update st (xs @ ys) mode = Inr st'' \<and>
                total_correct st'' = total_correct st' \<and>
                total_correct_plus st'' = total_correct_plus st'"
proof -
  consider (best) "mode = ''best''" | (first) "mode = ''first''"
    using assms by (auto simp: CodeEval_update_def Let_def split: if_splits)
  then show ?thesis
  proof cases
    case best
    have ph: "subscript CodeEval_fill_up_missing ''is_correct'' = Inr (JBool False)"
      "subscript CodeEval_fill_up_missing ''is_correct-plus'' = Inr (JBool False)"
      by (simp_all add: CodeEval_fill_up_missing_def)
    from assms best obtain cs ps where
      c: "comprehension (\<lambda>elem. subscript elem ''is_correct'')
            (xs @ CodeEval_fill_up_missing # ys) = Inr cs"
      and p: "comprehension (\<lambda>elem. subscript elem ''is_correct-plus'')
            (xs @ CodeEval_fill_up_missing # ys) = Inr ps"
      and st': "total_correct st' = total_correct st + of_bool (py_any cs)"
        "total_correct_plus st' = total_correct_plus st + of_bool (py_any ps)"
      by (auto simp: CodeEval_update_def Let_def and_then_Inr_iff split: if_splits)
    from comprehension_insert [OF ph(1) c] obtain c1 c2 where
      c': "comprehension (\<lambda>elem. subscript elem ''is_correct'') (xs @ ys) = Inr (c1 @ c2)"
      and cs: "cs = c1 @ JBool False # c2" by blast
    from comprehension_insert [OF ph(2) p] obtain p1 p2 where
      p': "comprehension (\<lambda>elem. subscript elem ''is_correct-plus'') (xs @ ys) = Inr (p1 @ p2)"
      and ps: "ps = p1 @ JBool False # p2" by blast
    have "py_any cs = py_any (c1 @ c2)" "py_any ps = py_any (p1 @ p2)"
      by (simp_all add: cs ps py_any_def)
    with st' c' p' best show ?thesis
      by (auto simp: CodeEval_update_def Let_def)
  next
    case first
    show ?thesis
    proof (cases xs)
      case Nil
      with assms first show ?thesis
        by (auto simp: CodeEval_update_def Let_def CodeEval_fill_up_missing_def and_then_Inr_iff)
    next
      case (Cons x xs')
      with assms first show ?thesis
        by (auto simp: CodeEval_update_def Let_def)
    qed
  qed
qed

text \<open>
  Claim C1 says that a substituted placeholder never counts as correct and that the run
  never raises. The placeholder of \<^verbatim>\<open>IFEval.fill_up_missing\<close> has empty lists, and
  \<^verbatim>\<open>all([])\<close> is true. A file whose first record has one instruction, not followed,
  and whose second line is \<^verbatim>\<open>{}\<close> gives, with \<^verbatim>\<open>allow_incomplete\<close> and mode
  \<^verbatim>\<open>first\<close>, a prompt accuracy of 50: the substituted record counts as a correct
  prompt. In mode \<^verbatim>\<open>best\<close>, a placeholder that stands beside a record with an
  instruction not followed is indexed past its end, and the run raises
  \<^verbatim>\<open>IndexError\<close>.
\<close>

theorem ifeval_placeholder_counts_as_correct:
  "fst (compute_metrics
          [[Json (ifeval_record (eval_block [''length:word_count''] [False])
                                (eval_block [''length:word_count''] [False])),
            Json (JObj [])]]
          IFEval True (- 1) ''first'') =
     Inr \<lparr>num_prompts = 2, num_instructions = 1,
          prompt_strict_accuracy = 50, instruction_strict_accuracy = 0,
          prompt_loose_accuracy = 50, instruction_loose_accuracy = 0\<rparr> \<and>
   fst (compute_metrics
          [[Json (ifeval_record (eval_block [''length:word_count''] [False])
                                (eval_block [''length:word_count''] [False]))],
           []]
          IFEval True (- 1) ''best'') = Inl IndexError"
  by (simp add: compute_metrics_def zip_longest_def longest_def IFEval_def IFEval_reset_def
      IFEval_update_def IFEval_is_incomplete_def IFEval_fill_up_missing_def IFEval_get_metrics_def
      true_div_def
      lacks_required_key_def required_keys_def update_single_stat_def empty_stats_def
      ifeval_record_def eval_block_def py_all_def increment_def)

section \<open>Majority vote of the Math family\<close>

lemma valid_answers_and_results_filter:
  assumes "list_all2 (\<lambda>e (a, r). subscript e ''predicted_answer'' = Inr a \<and>
              subscript e ''is_correct'' = Inr r) predictions recs"
  shows "valid_answers_and_results predictions = Inr (filter (\<lambda>(a, r). a \<noteq> JNull) recs)"
  using assms by (induction rule: list_all2_induct) auto

lemma Counter_from_fold:
  "\<forall>(a, r)\<in>set xs. hashable a \<and> hashable r \<Longrightarrow>
   Counter_from c xs = Inr (fold (\<lambda>x c. count_element c x) xs c)"
  by (induction xs arbitrary: c) auto

lemma count_element_map:
  "distinct ks \<Longrightarrow>
   count_element (map (\<lambda>k. (k, f k)) ks) x =
     (if x \<in> set ks then map (\<lambda>k. (k, if k = x then f k + 1 else f k)) ks
      else map (\<lambda>k. (k, f k)) ks @ [(x, 1)])"
  by (induction ks) auto

lemma fold_count_element:
  "fold (\<lambda>x c. count_element c x) xs [] =
     map (\<lambda>k. (k, count_list xs k)) (rev (remdups (rev xs)))"
proof (induction xs rule: rev_induct)
  case Nil
  show ?case by simp
next
  case (snoc x xs)
  have d: "distinct (rev (remdups (rev xs)))" by simp
  show ?case
  proof (cases "x \<in> set xs")
    case True
    then show ?thesis
      using snoc count_element_map [OF d, of "count_list xs" x] by auto
  next
    case False
    then show ?thesis
      using snoc count_element_map [OF d, of "count_list xs" x] by (auto simp: count_list_0_iff)
  qed
qed

lemma max_by_count_first:
  "\<exists>pre post. b # xs = pre @ max_by_count b xs # post \<and>
     (\<forall>y\<in>set pre. snd y < snd (max_by_count b xs)) \<and>
     (\<forall>y\<in>set post. snd y \<le> snd (max_by_count b xs))"
proof (induction xs arbitrary: b)
  case Nil
  show ?case by (intro exI [of _ "[]"]) simp
next
  case (Cons x xs)
  show ?case
  proof (cases "snd b < snd x")
    case True
    from Cons.IH [of x] obtain pre post where
      d: "x # xs = pre @ max_by_count x xs # post"
      and lt: "\<forall>y\<in>set pre. snd y < snd (max_by_count x xs)"
      and le: "\<forall>y\<in>set post. snd y \<le> snd (max_by_count x xs)" by blast
    have "snd x \<le> snd (max_by_count x xs)"
      using d lt by (cases pre) auto
    with True have "snd b < snd (max_by_count x xs)" by simp
    with lt have lt': "\<forall>y\<in>set (b # pre). snd y < snd (max_by_count x xs)" by simp
    from d have d': "b # x # xs = (b # pre) @ max_by_count x xs # post" by simp
    have eq: "max_by_count b (x # xs) = max_by_count x xs" using True by simp
    from d' lt' le show ?thesis unfolding eq by blast
  next
    case False
    from Cons.IH [of b] obtain pre post where
      d: "b # xs = pre @ max_by_count b xs # post"
      and lt: "\<forall>y\<in>set pre. snd y < snd (max_by_count b xs)"
      and le: "\<forall>y\<in>set post. snd y \<le> snd (max_by_count b xs)" by blast
    show ?thesis
    proof (cases pre)
      case Nil
      with d have m: "max_by_count b xs = b" and post: "post = xs" by auto
      have eq: "max_by_count b (x # xs) = b" using False m by simp
      from le m post False have le': "\<forall>y\<in>set (x # xs). snd y \<le> snd b" by auto
      have "b # x # xs = [] @ b # (x # xs)" "\<forall>y\<in>set []. snd y < snd b" by simp_all
      with le' show ?thesis unfolding eq by blast
    next
      case (Cons p pre')
      with d have p: "p = b" and xs: "xs = pre' @ max_by_count b xs # post" by auto
      from lt Cons p have "snd b < snd (max_by_count b xs)" by simp
      with False have "snd x < snd (max_by_count b xs)" by simp
      with lt Cons p have lt': "\<forall>y\<in>set (b # x # pre'). snd y < snd (max_by_count b xs)"
        by simp
      from xs have d': "b # x # xs = (b # x # pre') @ max_by_count b xs # post" by simp
      have eq: "max_by_count b (x # xs) = max_by_count b xs" using False by simp
      from d' lt' le show ?thesis unfolding eq by blast
    qed
  qed
qed

lemma remdups_append_filter:
  "remdups (xs @ ys) = filter (\<lambda>x. x \<notin> set ys) (remdups xs) @ remdups ys"
  by (induction xs) auto

lemma first_seen_append:
  "rev (remdups (rev (xs @ ys))) =
     rev (remdups (rev xs)) @ filter (\<lambda>y. y \<notin> set xs) (rev (remdups (rev ys)))"
  by (simp add: remdups_append_filter rev_filter)

lemma takeWhile_neq_split: "p \<notin> set a \<Longrightarrow> takeWhile (\<lambda>x. x \<noteq> p) (a @ p # b) = a"
  by (induction a) auto

lemma most_common_first_seen:
  assumes "V \<noteq> []"
  shows "\<exists>p before after. most_common_1 (fold (\<lambda>x c. count_element c x) V []) =
            Inr (p, count_list V p) \<and>
          V = before @ p # after \<and>
          (\<forall>q\<in>set before. count_list V q < count_list V p) \<and>
          (\<forall>q\<in>set after. count_list V q \<le> count_list V p)"
proof -
  let ?ks = "rev (remdups (rev V))"
  let ?C = "map (\<lambda>k. (k, count_list V k)) ?ks"
  from assms obtain k ks where ks: "?ks = k # ks" by (cases ?ks) auto
  let ?r = "max_by_count (k, count_list V k) (map (\<lambda>k. (k, count_list V k)) ks)"
  have mc: "most_common_1 ?C = Inr ?r" by (simp add: ks)
  from max_by_count_first [of "(k, count_list V k)" "map (\<lambda>k. (k, count_list V k)) ks"]
  obtain pre post where d: "?C = pre @ ?r # post"
    and lt: "\<forall>y\<in>set pre. snd y < snd ?r" and le: "\<forall>y\<in>set post. snd y \<le> snd ?r"
    by (auto simp: ks)
  obtain p n where r: "?r = (p, n)" by (cases ?r)
  have "(p, n) \<in> set ?C" using d r by simp
  then have n: "n = count_list V p" and pV: "p \<in> set V" by auto
  have kd: "?ks = map fst pre @ p # map fst post"
  proof -
    have "map fst ?C = ?ks" by (simp add: comp_def)
    with d r show ?thesis by (metis (no_types, lifting) fst_conv list.simps(9) map_append)
  qed
  have snd_pre: "\<forall>y\<in>set pre. snd y = count_list V (fst y)"
    and snd_post: "\<forall>y\<in>set post. snd y = count_list V (fst y)"
  proof -
    have "\<forall>y\<in>set ?C. snd y = count_list V (fst y)" by auto
    with d show "\<forall>y\<in>set pre. snd y = count_list V (fst y)"
      and "\<forall>y\<in>set post. snd y = count_list V (fst y)" by (metis Un_iff set_append list.set_intros(2))+
  qed
  define before where "before = takeWhile (\<lambda>x. x \<noteq> p) V"
  define after where "after = tl (dropWhile (\<lambda>x. x \<noteq> p) V)"
  have V: "V = before @ p # after"
    using pV unfolding before_def after_def
    by (metis (mono_tags, lifting) dropWhile_eq_Nil_conv hd_dropWhile list.collapse takeWhile_dropWhile_id)
  have pb: "p \<notin> set before" unfolding before_def by (metis (mono_tags, lifting) set_takeWhileD)
  have "?ks = rev (remdups (rev before)) @ filter (\<lambda>y. y \<notin> set before) (rev (remdups (rev (p # after))))"
    by (subst V) (rule first_seen_append)
  also have "rev (remdups (rev (p # after))) = p # filter (\<lambda>y. y \<noteq> p) (rev (remdups (rev after)))"
    using first_seen_append [of "[p]" after] by simp
  finally have kd2: "?ks = rev (remdups (rev before)) @ p #
      filter (\<lambda>y. y \<notin> set before) (filter (\<lambda>y. y \<noteq> p) (rev (remdups (rev after))))"
    using pb by simp
  have dist: "distinct ?ks" by simp
  have "p \<notin> set (map fst pre)" using dist kd by (metis distinct_append disjoint_iff list.set_intros(1) not_distinct_conv_prefix)
  then have "takeWhile (\<lambda>x. x \<noteq> p) ?ks = map fst pre"
    using kd takeWhile_neq_split by metis
  moreover have "takeWhile (\<lambda>x. x \<noteq> p) ?ks = rev (remdups (rev before))"
    using kd2 pb takeWhile_neq_split [of p "rev (remdups (rev before))"] by simp
  ultimately have "set before = fst ` set pre"
    by (metis set_map set_remdups set_rev)
  with lt snd_pre r n have b: "\<forall>q\<in>set before. count_list V q < count_list V p" by auto
  have "\<forall>q\<in>set V. count_list V q \<le> count_list V p"
  proof
    fix q assume "q \<in> set V"
    then have "q \<in> set ?ks" by simp
    then have "q \<in> fst ` set pre \<or> q = p \<or> q \<in> fst ` set post" using kd by auto
    then show "count_list V q \<le> count_list V p"
      using lt le snd_pre snd_post r n by (auto simp: less_imp_le)
  qed
  with V have a: "\<forall>q\<in>set after. count_list V q \<le> count_list V p" 
    by (metis Un_iff list.set_intros(2) set_append)
  from mc r n V b a show ?thesis
    unfolding fold_count_element
    by (intro exI [of _ p] exI [of _ before] exI [of _ after]) simp
qed

lemma count_list_map_inj: "inj f \<Longrightarrow> count_list (map f xs) (f x) = count_list xs x"
  by (induction xs) (auto dest: injD)

text \<open>
  Claim C4. For a group of Math records (\<open>recs\<close> gives their \<^verbatim>\<open>predicted_answer\<close>
  and \<^verbatim>\<open>is_correct\<close>) under \<^verbatim>\<open>majority\<close>, let \<open>valid\<close> be the pairs with a
  non-null answer, in the order of the group. If there is none, the group counts as no
  answer. Otherwise the update adds the \<^verbatim>\<open>is_correct\<close> of a pair \<open>(a, r)\<close> of
  \<open>valid\<close> such that no pair of \<open>valid\<close> is more frequent, and every pair that occurs
  before the first occurrence of \<open>(a, r)\<close> is strictly less frequent: the first seen
  among the most frequent pairs.
\<close>

theorem majority_most_frequent_first_seen:
  fixes recs :: "(json \<times> bool) list"
  assumes "list_all2 (\<lambda>e (a, r). subscript e ''predicted_answer'' = Inr a \<and>
              subscript e ''is_correct'' = Inr (JBool r) \<and> hashable a) predictions recs"
  shows "let valid = filter (\<lambda>(a, r). a \<noteq> JNull) recs in
         if valid = [] then
           MathEval_update st predictions ''majority'' =
             Inr (st\<lparr>total := total st + 1, total_no_answer := total_no_answer st + 1\<rparr>)
         else
           \<exists>a r before after.
             valid = before @ (a, r) # after \<and>
             (\<forall>q\<in>set before. count_list valid q < count_list valid (a, r)) \<and>
             (\<forall>q\<in>set after. count_list valid q \<le> count_list valid (a, r)) \<and>
             MathEval_update st predictions ''majority'' =
               Inr (st\<lparr>total := total st + 1, total_correct := total_correct st + of_bool r\<rparr>)"
proof -
  define f :: "json \<times> bool \<Rightarrow> json \<times> json" where "f = (\<lambda>(a, r). (a, JBool r))"
  define valid where "valid = filter (\<lambda>(a, r). a \<noteq> JNull) recs"
  have inj: "inj f" by (auto simp: f_def inj_on_def)
  have "list_all2 (\<lambda>e (a, r). subscript e ''predicted_answer'' = Inr a \<and>
              subscript e ''is_correct'' = Inr r) predictions (map f recs)"
    using assms by (auto simp: list_all2_conv_all_nth f_def split: prod.splits)
  then have "valid_answers_and_results predictions =
      Inr (filter (\<lambda>(a, r). a \<noteq> JNull) (map f recs))"
    by (rule valid_answers_and_results_filter)
  also have "filter (\<lambda>(a, r). a \<noteq> JNull) (map f recs) = map f valid"
    by (simp add: valid_def filter_map comp_def f_def case_prod_unfold)
  finally have v: "valid_answers_and_results predictions = Inr (map f valid)" .
  have hash: "\<forall>(a, r)\<in>set (map f valid). hashable a \<and> hashable r"
    using assms by (auto simp: valid_def f_def list_all2_conv_all_nth in_set_conv_nth)
  have cnt: "Counter (map f valid) = Inr (fold (\<lambda>x c. count_element c x) (map f valid) [])"
    unfolding Counter_def using hash by (rule Counter_from_fold)
  show ?thesis
  proof (cases "valid = []")
    case True
    then show ?thesis
      using v by (simp add: MathEval_update_def valid_def [symmetric])
  next
    case False
    then have "map f valid \<noteq> []" by simp
    from most_common_first_seen [OF this] obtain p before' after' where
      mc: "most_common_1 (fold (\<lambda>x c. count_element c x) (map f valid) []) =
            Inr (p, count_list (map f valid) p)"
      and d: "map f valid = before' @ p # after'"
      and lt: "\<forall>q\<in>set before'. count_list (map f valid) q < count_list (map f valid) p"
      and le: "\<forall>q\<in>set after'. count_list (map f valid) q \<le> count_list (map f valid) p"
      by blast
    from d obtain before x after where
      d': "valid = before @ x # after" and b: "before' = map f before"
      and x: "p = f x" and a: "after' = map f after"
      by (auto simp: map_eq_append_conv map_eq_Cons_conv)
    obtain ans r where xr: "x = (ans, r)" by (cases x)
    have lt': "\<forall>q\<in>set before. count_list valid q < count_list valid (ans, r)"
      using lt b x xr count_list_map_inj [OF inj] by auto
    have le': "\<forall>q\<in>set after. count_list valid q \<le> count_list valid (ans, r)"
      using le a x xr count_list_map_inj [OF inj] by auto
    have u: "MathEval_update st predictions ''majority'' =
        Inr (st\<lparr>total := total st + 1, total_correct := total_correct st + of_bool r\<rparr>)"
      using False v cnt mc x xr by (simp add: MathEval_update_def f_def)
    have "\<exists>a r before after.
             valid = before @ (a, r) # after \<and>
             (\<forall>q\<in>set before. count_list valid q < count_list valid (a, r)) \<and>
             (\<forall>q\<in>set after. count_list valid q \<le> count_list valid (a, r)) \<and>
             MathEval_update st predictions ''majority'' =
               Inr (st\<lparr>total := total st + 1, total_correct := total_correct st + of_bool r\<rparr>)"
      using d' xr lt' le' u
      by (intro exI [of _ ans] exI [of _ r] exI [of _ before] exI [of _ after]) simp
    with False show ?thesis
      unfolding valid_def [symmetric] Let_def by (simp only: if_False)
  qed
qed

theorem majority_most_frequent_first_seen_witness:
  "list_all2 (\<lambda>e (a, r). subscript e ''predicted_answer'' = Inr a \<and>
              subscript e ''is_correct'' = Inr (JBool r) \<and> hashable a)
     [math_record (JStr ''2'') False, math_record JNull True, math_record (JStr ''3'') True]
     [(JStr ''2'', False), (JNull, True), (JStr ''3'', True)] \<and>
   filter (\<lambda>(a, r). a \<noteq> JNull) [(JStr ''2'', False), (JNull, True), (JStr ''3'', True)] =
     [] @ (JStr ''2'', False) # [(JStr ''3'', True)] \<and>
   MathEval_update MathEval_reset
     [math_record (JStr ''2'') False, math_record JNull True, math_record (JStr ''3'') True]
     ''majority'' = Inr \<lparr>total = 1, total_correct = 0, total_no_answer = 0\<rparr>"
proof -
  have h: "list_all2 (\<lambda>e (a, r). subscript e ''predicted_answer'' = Inr a \<and>
              subscript e ''is_correct'' = Inr (JBool r) \<and> hashable a)
     [math_record (JStr ''2'') False, math_record JNull True, math_record (JStr ''3'') True]
     [(JStr ''2'', False), (JNull, True), (JStr ''3'', True)]"
    by (simp add: math_record_def)
  from majority_most_frequent_first_seen [OF h, of MathEval_reset] h
  show ?thesis
    by (auto simp: Let_def MathEval_reset_def Cons_eq_append_conv)
qed

section \<open>The best-mode merge of IFEval\<close>

lemma followed_before_0 [simp]: "followed_before fls 0 p = False"
  by (simp add: followed_before_def)

lemma followed_before_Cons_Suc:
  "followed_before (bs # fls) (Suc j) p = ((p < length bs \<and> bs ! p) \<or> followed_before fls j p)"
  by (simp add: followed_before_def)

lemma merge_defined_iff:
  "merge_defined fls \<longleftrightarrow>
     (\<forall>j<length fls. \<forall>p<length (hd fls). p < length (fls ! j) \<or> followed_before fls j p)"
  unfolding merge_defined_def list_all_iff set_upt by (meson atLeastLessThan_iff le0)

lemma or_elementwise_schema:
  assumes "subscript e ''follow_instruction_list'' = Inr (JArr (map JBool bs))"
  shows "or_elementwise e i (map JBool acc) =
           (if \<forall>p<length acc. acc ! p \<or> i + p < length bs
            then Inr (map JBool (map (\<lambda>p. acc ! p \<or> (i + p < length bs \<and> bs ! (i + p)))
                                  [0..<length acc]))
            else Inl IndexError)"
proof (induction acc arbitrary: i)
  case Nil
  show ?case by simp
next
  case (Cons a acc)
  have up: "[0..<Suc (length acc)] = 0 # map Suc [0..<length acc]"
    by (simp add: upt_conv_Cons map_Suc_upt del: upt_Suc)
  have hd: "(if truthy (JBool a) then Inr (JBool a)
             else and_then (subscript e ''follow_instruction_list'') (\<lambda>l. index_at l i)) =
            (if a \<or> i < length bs then Inr (JBool (a \<or> (i < length bs \<and> bs ! i)))
             else Inl IndexError)"
    using assms by auto
  show ?case
    unfolding list.map or_elementwise.simps hd Cons.IH
    by (simp add: All_less_Suc2 up comp_def del: upt_Suc)
qed

lemma merge_follow_schema:
  assumes "list_all2 (\<lambda>e bs. subscript e ''follow_instruction_list'' = Inr (JArr (map JBool bs)))
             elems fls"
  shows "merge_follow (map JBool acc) elems =
           (if \<forall>j<length fls. \<forall>p<length acc.
                 p < length (fls ! j) \<or> acc ! p \<or> followed_before fls j p
            then Inr (map JBool (map (\<lambda>p. acc ! p \<or> followed_before fls (length fls) p)
                                  [0..<length acc]))
            else Inl IndexError)"
  using assms
proof (induction arbitrary: acc rule: list_all2_induct)
  case Nil
  show ?case by (simp add: map_nth)
next
  case (Cons e elems bs fls)
  let ?acc1 = "map (\<lambda>p. acc ! p \<or> (0 + p < length bs \<and> bs ! (0 + p))) [0..<length acc]"
  show ?case
  proof (cases "\<forall>p<length acc. acc ! p \<or> p < length bs")
    case False
    then have neg: "\<not> (\<forall>j<length (bs # fls). \<forall>p<length acc.
        p < length ((bs # fls) ! j) \<or> acc ! p \<or> followed_before (bs # fls) j p)"
      by (auto simp: All_less_Suc2)
    have "or_elementwise e 0 (map JBool acc) = Inl IndexError"
      using False by (simp only: or_elementwise_schema [OF Cons.hyps(1)] add_0 if_False)
    then have "merge_follow (map JBool acc) (e # elems) = Inl IndexError" by simp
    with neg show ?thesis by (simp only: if_False)
  next
    case True
    have step: "merge_follow (map JBool acc) (e # elems) = merge_follow (map JBool ?acc1) elems"
      using True by (simp add: or_elementwise_schema [OF Cons.hyps(1)] del: upt_Suc)
    have c: "(\<forall>j<length fls. \<forall>p<length ?acc1.
          p < length (fls ! j) \<or> ?acc1 ! p \<or> followed_before fls j p) \<longleftrightarrow>
        (\<forall>j<length (bs # fls). \<forall>p<length acc.
          p < length ((bs # fls) ! j) \<or> acc ! p \<or> followed_before (bs # fls) j p)"
      using True by (auto simp: All_less_Suc2 followed_before_Cons_Suc)
    have r: "map (\<lambda>p. ?acc1 ! p \<or> followed_before fls (length fls) p) [0..<length ?acc1] =
        map (\<lambda>p. acc ! p \<or> followed_before (bs # fls) (length (bs # fls)) p) [0..<length acc]"
      by (auto simp: followed_before_Cons_Suc)
    show ?thesis
      unfolding step Cons.IH c r ..
  qed
qed

lemma update_tier0_schema:
  "\<exists>st'. update_tier0 st (zip (map JStr ids) vs) = Inr st' \<and>
     prompt_total st' = prompt_total st \<and> prompt_correct st' = prompt_correct st \<and>
     instruction_total st' = instruction_total st \<and>
     instruction_correct st' = instruction_correct st"
proof (induction ids arbitrary: vs st)
  case Nil
  show ?case by simp
next
  case (Cons i ids)
  show ?case
  proof (cases vs)
    case Nil
    then show ?thesis by simp
  next
    case vs: (Cons v vs')
    define c where "c = takeWhile (\<lambda>x. x \<noteq> CHR '':'') i"
    define st1 where "st1 = st\<lparr>tier0_total := increment (tier0_total st) c\<rparr>"
    define st2 where
      "st2 = (if truthy v then st1\<lparr>tier0_correct := increment (tier0_correct st1) c\<rparr> else st1)"
    have step: "update_tier0 st (zip (map JStr (i # ids)) vs) =
        update_tier0 st2 (zip (map JStr ids) vs')"
      by (simp add: vs st2_def st1_def c_def Let_def)
    have same: "prompt_total st2 = prompt_total st" "prompt_correct st2 = prompt_correct st"
      "instruction_total st2 = instruction_total st"
      "instruction_correct st2 = instruction_correct st"
      by (simp_all add: st2_def st1_def)
    from Cons.IH [of st2 vs'] show ?thesis
      unfolding step same .
  qed
qed

lemma py_sum_bools: "py_sum (map JBool bs) = Inr (int (length (filter (\<lambda>b. b) bs)))"
  by (induction bs) auto

lemma py_all_bools: "py_all (map JBool bs) = (\<forall>p<length bs. bs ! p)"
  by (simp add: py_all_def list_all_length)

text \<open>
  Claim C10, as stated, fails: the merge is well defined for a group whose second
  record has a shorter list than the first, when the first record has a true verdict
  at the positions the second lacks. Python's \<^verbatim>\<open>or\<close> does not evaluate
  \<^verbatim>\<open>elem['follow_instruction_list'][i]\<close> when \<^verbatim>\<open>follow_instruction_list[i]\<close> is true.
\<close>

theorem shorter_list_merges_counterexample:
  "length ([] :: bool list) < length [True] \<and>
   IFEval_update IFEval_reset
     [ifeval_record (eval_block [''punctuation:no_comma''] [True])
                    (eval_block [''punctuation:no_comma''] [True]),
      ifeval_record (eval_block [''punctuation:no_comma''] [])
                    (eval_block [''punctuation:no_comma''] [])] ''best'' =
     Inr \<lparr>strict_stats =
            \<lparr>prompt_total = 1, prompt_correct = 1, instruction_total = 1,
             instruction_correct = 1, tier0_total = [''punctuation'' \<mapsto> 1],
             tier0_correct = [''punctuation'' \<mapsto> 1]\<rparr>,
          loose_stats =
            \<lparr>prompt_total = 1, prompt_correct = 1, instruction_total = 1,
             instruction_correct = 1, tier0_total = [''punctuation'' \<mapsto> 1],
             tier0_correct = [''punctuation'' \<mapsto> 1]\<rparr>\<rparr>"
  by (simp add: IFEval_update_def IFEval_reset_def update_single_stat_def empty_stats_def
      ifeval_record_def eval_block_def py_all_def increment_def)

text \<open>
  Claim C10, amended. For blocks whose \<^verbatim>\<open>follow_instruction_list\<close> are lists of
  booleans (\<open>fls\<close>, in the order of the group) \<^verbatim>\<open>_update_single_stat\<close> returns if
  and only if every record's list reaches every position of the first record's list at
  which no earlier record has a true verdict (\<open>merge_defined\<close>), and raises
  \<^verbatim>\<open>IndexError\<close> otherwise. This holds in particular when every list is at least as
  long as the first. The counters are computed from the positions below the length of the
  first list alone: a position counts as followed when some record has a true verdict
  there, and positions beyond are ignored.
\<close>

theorem best_merge_index_range:
  assumes "list_all2 (\<lambda>e bs. subscript e ''follow_instruction_list'' = Inr (JArr (map JBool bs)))
             elems fls"
    and "elems \<noteq> []"
    and "subscript (hd elems) ''instruction_id_list'' = Inr (JArr (map JStr ids))"
  shows "((\<forall>bs\<in>set fls. length (hd fls) \<le> length bs) \<longrightarrow> merge_defined fls) \<and>
         (if merge_defined fls then
            \<exists>st'. update_single_stat st elems = Inr st' \<and>
              prompt_total st' = prompt_total st + 1 \<and>
              prompt_correct st' = prompt_correct st +
                of_bool (\<forall>p<length (hd fls). followed_before fls (length fls) p) \<and>
              instruction_total st' = instruction_total st + int (length ids) \<and>
              instruction_correct st' = instruction_correct st +
                int (length (filter (\<lambda>p. followed_before fls (length fls) p)
                               [0..<length (hd fls)]))
          else update_single_stat st elems = Inl IndexError)"
proof -
  from assms(1,2) obtain e0 elems' F fls' where
    e: "elems = e0 # elems'" and f: "fls = F # fls'"
    and f0: "subscript e0 ''follow_instruction_list'' = Inr (JArr (map JBool F))"
    by (cases elems; cases fls) auto
  from assms(3) e have ids: "subscript e0 ''instruction_id_list'' = Inr (JArr (map JStr ids))"
    by simp
  have suff: "(\<forall>bs\<in>set fls. length (hd fls) \<le> length bs) \<longrightarrow> merge_defined fls"
    unfolding merge_defined_iff by (meson nth_mem less_le_trans)
  have fb: "F ! p \<Longrightarrow> p < length F \<Longrightarrow> 0 < j \<Longrightarrow> followed_before fls j p" for p j
    by (cases j) (simp_all add: f followed_before_Cons_Suc)
  have c: "(\<forall>j<length fls. \<forall>p<length F.
              p < length (fls ! j) \<or> F ! p \<or> followed_before fls j p) \<longleftrightarrow> merge_defined fls"
  proof -
    have "p < length (fls ! j) \<or> F ! p \<or> followed_before fls j p \<longleftrightarrow>
          p < length (fls ! j) \<or> followed_before fls j p" if "p < length F" for p j
      using that fb [of p j] by (cases j) (auto simp: f)
    then show ?thesis by (simp add: merge_defined_iff f)
  qed
  define m where "m = map (\<lambda>p. followed_before fls (length fls) p) [0..<length F]"
  have m: "map (\<lambda>p. F ! p \<or> followed_before fls (length fls) p) [0..<length F] = m"
    using fb [of _ "length fls"] by (auto simp: f m_def)
  have mf: "merge_follow (map JBool F) elems =
      (if merge_defined fls then Inr (map JBool m) else Inl IndexError)"
    unfolding merge_follow_schema [OF assms(1)] c m ..
  show ?thesis
  proof (cases "merge_defined fls")
    case False
    with mf have "merge_follow (map JBool F) elems = Inl IndexError" by simp
    then have "update_single_stat st elems = Inl IndexError"
      unfolding update_single_stat_def e using ids f0 by (simp add: e)
    with False suff show ?thesis by simp
  next
    case True
    with mf have mg: "merge_follow (map JBool F) elems = Inr (map JBool m)" by simp
    define st4 where
      "st4 = st\<lparr>prompt_total := prompt_total st + 1,
                 prompt_correct := prompt_correct st + of_bool (py_all (map JBool m)),
                 instruction_total := instruction_total st + int (length ids),
                 instruction_correct :=
                   instruction_correct st + int (length (filter (\<lambda>b. b) m))\<rparr>"
    have u: "update_single_stat st elems = update_tier0 st4 (zip (map JStr ids) (map JBool m))"
      unfolding update_single_stat_def e list.case
      by (simp add: ids f0 mg [unfolded e] py_sum_bools Let_def st4_def
          del: merge_follow.simps)
    from update_tier0_schema [of st4 ids "map JBool m"] obtain st' where
      t: "update_tier0 st4 (zip (map JStr ids) (map JBool m)) = Inr st'"
      and "prompt_total st' = prompt_total st4" "prompt_correct st' = prompt_correct st4"
      "instruction_total st' = instruction_total st4"
      "instruction_correct st' = instruction_correct st4" by blast
    then have fields: "prompt_total st' = prompt_total st + 1"
      "prompt_correct st' = prompt_correct st + of_bool (\<forall>p<length m. m ! p)"
      "instruction_total st' = instruction_total st + int (length ids)"
      "instruction_correct st' = instruction_correct st + int (length (filter (\<lambda>b. b) m))"
      by (simp_all add: st4_def py_all_bools)
    have all: "(\<forall>p<length m. m ! p) \<longleftrightarrow>
        (\<forall>p<length (hd fls). followed_before fls (length fls) p)"
      by (simp add: m_def f)
    have flt: "length (filter (\<lambda>b. b) m) =
        length (filter (\<lambda>p. followed_before fls (length fls) p) [0..<length (hd fls)])"
      unfolding m_def by (simp add: filter_map comp_def f del: upt_Suc)
    have "\<exists>st'. update_single_stat st elems = Inr st' \<and>
              prompt_total st' = prompt_total st + 1 \<and>
              prompt_correct st' = prompt_correct st +
                of_bool (\<forall>p<length (hd fls). followed_before fls (length fls) p) \<and>
              instruction_total st' = instruction_total st + int (length ids) \<and>
              instruction_correct st' = instruction_correct st +
                int (length (filter (\<lambda>p. followed_before fls (length fls) p)
                               [0..<length (hd fls)]))"
      using u t fields unfolding all flt by (intro exI [of _ st']) simp
    with True suff show ?thesis by (simp only: if_True simp_thms)
  qed
qed

theorem best_merge_index_range_witness:
  "list_all2 (\<lambda>e bs. subscript e ''follow_instruction_list'' = Inr (JArr (map JBool bs)))
     [eval_block [''length:word_count'', ''punctuation:no_comma''] [False, True],
      eval_block [''length:word_count'', ''punctuation:no_comma''] [True]]
     [[False, True], [True]] \<and>
   merge_defined [[False, True], [True]] \<and>
   (\<exists>st'. update_single_stat empty_stats
       [eval_block [''length:word_count'', ''punctuation:no_comma''] [False, True],
        eval_block [''length:word_count'', ''punctuation:no_comma''] [True]] = Inr st' \<and>
      prompt_total st' = 1 \<and> prompt_correct st' = 1 \<and>
      instruction_total st' = 2 \<and> instruction_correct st' = 2)"
proof -
  let ?elems = "[eval_block [''length:word_count'', ''punctuation:no_comma''] [False, True],
      eval_block [''length:word_count'', ''punctuation:no_comma''] [True]]"
  let ?fls = "[[False, True], [True]]"
  have h1: "list_all2 (\<lambda>e bs. subscript e ''follow_instruction_list'' = Inr (JArr (map JBool bs)))
     ?elems ?fls"
    by (simp add: eval_block_def)
  have h2: "?elems \<noteq> []" by simp
  have h3: "subscript (hd ?elems) ''instruction_id_list'' =
      Inr (JArr (map JStr [''length:word_count'', ''punctuation:no_comma'']))"
    by (simp add: eval_block_def)
  have fb: "followed_before ?fls (length ?fls) 0" "followed_before ?fls (length ?fls) (Suc 0)"
    by (simp_all add: followed_before_def)
  have md: "merge_defined ?fls"
    by (simp add: merge_defined_def followed_before_def)
  have all: "(\<forall>p<length (hd ?fls). followed_before ?fls (length ?fls) p)"
    using fb by (simp add: All_less_Suc)
  have flt: "filter (\<lambda>p. followed_before ?fls (length ?fls) p) [0..<length (hd ?fls)] = [0, Suc 0]"
    using fb by simp
  from best_merge_index_range [OF h1 h2 h3, of empty_stats] md
  have "\<exists>st'. update_single_stat empty_stats ?elems = Inr st' \<and>
              prompt_total st' = prompt_total empty_stats + 1 \<and>
              prompt_correct st' = prompt_correct empty_stats +
                of_bool (\<forall>p<length (hd ?fls). followed_before ?fls (length ?fls) p) \<and>
              instruction_total st' = instruction_total empty_stats +
                int (length [''length:word_count'', ''punctuation:no_comma'']) \<and>
              instruction_correct st' = instruction_correct empty_stats +
                int (length (filter (\<lambda>p. followed_before ?fls (length ?fls) p)
                               [0..<length (hd ?fls)]))"
    by (simp only: if_True simp_thms)
  then have "\<exists>st'. update_single_stat empty_stats ?elems = Inr st' \<and>
      prompt_total st' = 1 \<and> prompt_correct st' = 1 \<and>
      instruction_total st' = 2 \<and> instruction_correct st' = 2"
    unfolding flt using all by (simp add: empty_stats_def)
  with h1 md show ?thesis by blast
qed

section \<open>Metrics over no sample\<close>

text \<open>
  Claim C8. In each of the three families \<^verbatim>\<open>get_metrics\<close> raises
  \<^verbatim>\<open>ZeroDivisionError\<close> when the count of samples is zero (\<^verbatim>\<open>total\<close> for MathEval
  and CodeEval, the strict \<^verbatim>\<open>prompt total\<close> for IFEval), and so does
  \<^verbatim>\<open>compute_metrics\<close> over no file and with \<^verbatim>\<open>max_samples = 0\<close>.
\<close>

theorem get_metrics_zero_total:
  "(total ms = 0 \<longrightarrow> MathEval_get_metrics ms = Inl ZeroDivisionError) \<and>
   (total cs = 0 \<longrightarrow> CodeEval_get_metrics cs = Inl ZeroDivisionError) \<and>
   (prompt_total (strict_stats fs) = 0 \<longrightarrow> IFEval_get_metrics fs = Inl ZeroDivisionError) \<and>
   fst (compute_metrics [] MathEval a k mode) = Inl ZeroDivisionError \<and>
   fst (compute_metrics [] CodeEval a k mode) = Inl ZeroDivisionError \<and>
   fst (compute_metrics [] IFEval a k mode) = Inl ZeroDivisionError \<and>
   fst (compute_metrics files MathEval a 0 mode) = Inl ZeroDivisionError \<and>
   fst (compute_metrics files CodeEval a 0 mode) = Inl ZeroDivisionError \<and>
   fst (compute_metrics files IFEval a 0 mode) = Inl ZeroDivisionError"
  by (simp add: MathEval_get_metrics_def true_div_def CodeEval_get_metrics_def IFEval_get_metrics_def
      compute_metrics_def loop_nil_or_cut zip_longest_nil MathEval_def CodeEval_def IFEval_def
      MathEval_reset_def CodeEval_reset_def IFEval_reset_def empty_stats_def)

theorem get_metrics_zero_total_witness:
  "total MathEval_reset = 0 \<and> MathEval_get_metrics MathEval_reset = Inl ZeroDivisionError \<and>
   total CodeEval_reset = 0 \<and> CodeEval_get_metrics CodeEval_reset = Inl ZeroDivisionError \<and>
   prompt_total (strict_stats IFEval_reset) = 0 \<and>
   IFEval_get_metrics IFEval_reset = Inl ZeroDivisionError"
  using get_metrics_zero_total [of MathEval_reset CodeEval_reset IFEval_reset]
  by (simp add: MathEval_reset_def CodeEval_reset_def IFEval_reset_def empty_stats_def)

end
